theory Spec2Isabelle
  imports Main "HOL-Library.List_Lexorder"
begin

section \<open>Pareto front identification: the embedding of \<open>identify_pareto\<close>\<close>

text \<open>
  The notebook function under study:
  \<^verbatim>\<open>
  def identify_pareto(scores):
      population_size = scores.shape[0]
      population_ids = np.arange(population_size)
      pareto_front = np.ones(population_size, dtype=bool)
      for i in range(population_size):
          for j in range(population_size):
              if all(scores[j] >= scores[i]) and any(scores[j] > scores[i]):
                  pareto_front[i] = 0
                  break
      return population_ids[pareto_front]
  \<close>
  \<open>scores\<close> is a two-dimensional NumPy array: a list of rows, one row per candidate.
  Every row of such an array has the same length (predicate \<open>rectangular\<close> below), so
  the element-wise comparison of two rows never meets a shape mismatch. The entries are
  numbers compared with \<open>>=\<close> and \<open>>\<close>; they are taken from any linear order
  (the notebook uses integers; a NaN entry is outside the model).
  Indexing out of range raises \<open>IndexError\<close> in Python; the model returns it as a value.
\<close>

subsection \<open>Python and NumPy primitives\<close>

datatype exception = IndexError

definition getitem :: "'a list \<Rightarrow> nat \<Rightarrow> exception + 'a" where
  "getitem xs i = (if i < length xs then Inr (xs ! i) else Inl IndexError)"

definition setitem :: "'a list \<Rightarrow> nat \<Rightarrow> 'a \<Rightarrow> exception + 'a list" where
  "setitem xs i v = (if i < length xs then Inr (xs[i := v]) else Inl IndexError)"

text \<open>\<open>xs[mask]\<close> with a boolean mask: the entries of \<open>xs\<close> where the mask is true, in
  order; NumPy raises \<open>IndexError\<close> when the mask has another length than \<open>xs\<close>.\<close>

definition mask_index :: "'a list \<Rightarrow> bool list \<Rightarrow> exception + 'a list" where
  "mask_index xs flags =
     (if length flags = length xs then Inr (map fst (filter snd (zip xs flags)))
      else Inl IndexError)"

definition shape0 :: "'a list list \<Rightarrow> nat" where
  "shape0 scores = length scores"

definition arange :: "nat \<Rightarrow> nat list" where
  "arange n = [0..<n]"

definition ones :: "nat \<Rightarrow> bool list" where
  "ones n = replicate n True"

definition range_py :: "nat \<Rightarrow> nat list" where
  "range_py n = [0..<n]"

definition all_py :: "bool list \<Rightarrow> bool" where
  "all_py bs = list_all (\<lambda>b. b) bs"

definition any_py :: "bool list \<Rightarrow> bool" where
  "any_py bs = list_ex (\<lambda>b. b) bs"

text \<open>\<open>a >= b\<close> and \<open>a > b\<close> on two rows: the array of the element-wise comparisons.\<close>

definition np_greater_equal :: "('a::linorder) list \<Rightarrow> 'a list \<Rightarrow> bool list" where
  "np_greater_equal a b = map2 (\<lambda>x y. x \<ge> y) a b"

definition np_greater :: "('a::linorder) list \<Rightarrow> 'a list \<Rightarrow> bool list" where
  "np_greater a b = map2 (\<lambda>x y. x > y) a b"

text \<open>A two-dimensional array with \<open>m\<close> columns.\<close>

definition rectangular :: "'a list list \<Rightarrow> nat \<Rightarrow> bool" where
  "rectangular scores m = list_all (\<lambda>row. length row = m) scores"

subsection \<open>The function\<close>

text \<open>The condition of the \<open>if\<close>: row \<open>sj\<close> dominates row \<open>si\<close>.\<close>

definition dominates :: "('a::linorder) list \<Rightarrow> 'a list \<Rightarrow> bool" where
  "dominates sj si \<longleftrightarrow> all_py (np_greater_equal sj si) \<and> any_py (np_greater sj si)"

text \<open>The inner loop over the remaining values \<open>js\<close> of \<open>j\<close>; the first dominator found
  clears the flag of \<open>i\<close> and leaves the loop (\<open>break\<close>).\<close>

fun inner_loop ::
  "('a::linorder) list list \<Rightarrow> nat \<Rightarrow> nat list \<Rightarrow> bool list \<Rightarrow> exception + bool list" where
  "inner_loop scores i [] pareto_front = Inr pareto_front"
| "inner_loop scores i (j # js) pareto_front =
     (case getitem scores j of
        Inl e \<Rightarrow> Inl e
      | Inr sj \<Rightarrow>
         (case getitem scores i of
            Inl e \<Rightarrow> Inl e
          | Inr si \<Rightarrow>
              if dominates sj si then setitem pareto_front i False
              else inner_loop scores i js pareto_front))"

text \<open>The outer loop over the remaining values \<open>is\<close> of \<open>i\<close>.\<close>

fun outer_loop ::
  "('a::linorder) list list \<Rightarrow> nat \<Rightarrow> nat list \<Rightarrow> bool list \<Rightarrow> exception + bool list" where
  "outer_loop scores population_size [] pareto_front = Inr pareto_front"
| "outer_loop scores population_size (i # is) pareto_front =
     (case inner_loop scores i (range_py population_size) pareto_front of
        Inl e \<Rightarrow> Inl e
      | Inr pareto_front' \<Rightarrow> outer_loop scores population_size is pareto_front')"

definition identify_pareto :: "('a::linorder) list list \<Rightarrow> exception + nat list" where
  "identify_pareto scores =
     (let population_size = shape0 scores;
          population_ids = arange population_size;
          pareto_front = ones population_size
      in case outer_loop scores population_size (range_py population_size) pareto_front of
           Inl e \<Rightarrow> Inl e
         | Inr pareto_front' \<Rightarrow> mask_index population_ids pareto_front')"

subsection \<open>The notebook's data\<close>

definition notebook_scores :: "int list list" where
  "notebook_scores =
    [[97, 23], [55, 77], [34, 76], [80, 60], [99, 4], [81, 5], [5, 81], [30, 79],
     [15, 80], [70, 65], [90, 40], [40, 30], [30, 40], [20, 60], [60, 50], [20, 20],
     [30, 1], [60, 40], [70, 25], [44, 62], [55, 55], [55, 10], [15, 45], [83, 22],
     [76, 46], [56, 32], [45, 55], [10, 70], [10, 30], [79, 50]]"

subsection \<open>Notions used to state the properties\<close>

text \<open>Candidate \<open>i\<close> is dominated when some row of the table dominates row \<open>i\<close>
  (the condition under which the inner loop clears its flag).\<close>

definition dominated :: "('a::linorder) list list \<Rightarrow> nat \<Rightarrow> bool" where
  "dominated scores i =
     list_ex (\<lambda>j. dominates (scores ! j) (scores ! i)) [0..<length scores]"

text \<open>\<open>scores[:, k]\<close>: column \<open>k\<close> of the table, as the notebook slices it for plotting.\<close>

definition column :: "'a list list \<Rightarrow> nat \<Rightarrow> 'a list" where
  "column scores k = map (\<lambda>row. row ! k) scores"

text \<open>The table whose row \<open>i\<close> is row \<open>p i\<close> of \<open>scores\<close>.\<close>

definition permute_rows :: "(nat \<Rightarrow> nat) \<Rightarrow> 'a list list \<Rightarrow> 'a list list" where
  "permute_rows p scores = map (\<lambda>i. scores ! p i) [0..<length scores]"

text \<open>
  The exhaustive reference procedure of the specification: every ordered pair \<open>(i, j)\<close>
  with \<open>i \<noteq> j\<close> is examined, every dominance found is recorded in the flag of \<open>i\<close>,
  and no comparison is skipped. It is written from the specification's description, to
  be compared with \<open>identify_pareto\<close>.
\<close>

definition all_pairs :: "nat \<Rightarrow> (nat \<times> nat) list" where
  "all_pairs n = [(i, j). i \<leftarrow> [0..<n], j \<leftarrow> [0..<n], i \<noteq> j]"

definition record_dominance ::
  "('a::linorder) list list \<Rightarrow> nat \<times> nat \<Rightarrow> bool list \<Rightarrow> bool list" where
  "record_dominance scores ij flags =
     (case ij of (i, j) \<Rightarrow>
        if dominates (scores ! j) (scores ! i) then flags[i := False] else flags)"

definition exhaustive_front :: "('a::linorder) list list \<Rightarrow> nat list" where
  "exhaustive_front scores =
     (let n = length scores;
          flags = fold (record_dominance scores) (all_pairs n) (replicate n True)
      in filter (\<lambda>i. flags ! i) [0..<n])"

section \<open>The dominance relation\<close>

lemma dominates_Nil1: "dominates [] b = False"
  by (simp add: dominates_def all_py_def any_py_def np_greater_equal_def np_greater_def)

lemma dominates_Nil2: "dominates a [] = False"
  by (simp add: dominates_def all_py_def any_py_def np_greater_equal_def np_greater_def)

lemma dominates_Cons:
  "dominates (x # xs) (y # ys) \<longleftrightarrow>
     x \<ge> y \<and> (if x > y then all_py (np_greater_equal xs ys) else dominates xs ys)"
  by (auto simp add: dominates_def all_py_def any_py_def np_greater_equal_def np_greater_def)

lemma all_py_nth:
  "length a = length b \<Longrightarrow>
   all_py (np_greater_equal a b) \<longleftrightarrow> (\<forall>k<length a. a ! k \<ge> b ! k)"
  by (auto simp add: all_py_def np_greater_equal_def list_all_length)

lemma any_py_nth:
  "length a = length b \<Longrightarrow>
   any_py (np_greater a b) \<longleftrightarrow> (\<exists>k<length a. a ! k > b ! k)"
  by (auto simp add: any_py_def np_greater_def list_ex_length)

lemma dominates_nth:
  "length a = length b \<Longrightarrow>
   dominates a b \<longleftrightarrow> (\<forall>k<length a. a ! k \<ge> b ! k) \<and> (\<exists>k<length a. a ! k > b ! k)"
  by (simp add: dominates_def all_py_nth any_py_nth)

lemma dominates_irrefl: "\<not> dominates a a"
  by (simp add: dominates_nth)

text \<open>A dominating row is greater in the lexicographic order of rows: at the first
  column where the two rows differ, the dominating one has the larger entry.\<close>

lemma dominates_lex: "dominates a b \<Longrightarrow> b < a"
proof (induction a arbitrary: b)
  case Nil
  then show ?case by (simp add: dominates_Nil1)
next
  case (Cons x xs)
  show ?case
  proof (cases b)
    case Nil
    with Cons.prems show ?thesis by (simp add: dominates_Nil2)
  next
    case (Cons y ys)
    with Cons.prems Cons.IH[of ys] show ?thesis
      by (auto simp add: dominates_Cons split: if_splits)
  qed
qed

lemma dominates_asym: "dominates a b \<Longrightarrow> \<not> dominates b a"
  using dominates_lex[of a b] dominates_lex[of b a] by auto

lemma dominates_trans:
  assumes ab: "length a = length b" and bc: "length b = length c"
    and dab: "dominates a b" and dbc: "dominates b c"
  shows "dominates a c"
proof -
  from dab ab have ge1: "\<forall>k<length a. a ! k \<ge> b ! k"
    and "\<exists>k<length a. a ! k > b ! k"
    by (simp_all add: dominates_nth)
  then obtain k where k: "k < length a" "a ! k > b ! k" by blast
  from dbc ab bc have ge2: "\<forall>k<length a. b ! k \<ge> c ! k"
    by (simp add: dominates_nth)
  have "\<forall>k<length a. a ! k \<ge> c ! k"
  proof (intro allI impI)
    fix l assume "l < length a"
    with ge1 ge2 have "c ! l \<le> b ! l" "b ! l \<le> a ! l" by simp_all
    then show "c ! l \<le> a ! l" by (rule order_trans)
  qed
  moreover from k ge2 have "c ! k < a ! k" by (meson order_le_less_trans)
  ultimately show ?thesis using k(1) ab bc by (auto simp add: dominates_nth)
qed

lemma rectangular_nth:
  "rectangular scores m \<Longrightarrow> i < length scores \<Longrightarrow> length (scores ! i) = m"
  by (simp add: rectangular_def list_all_length)

section \<open>What the two loops compute\<close>

lemma dominated_iff:
  "dominated scores i \<longleftrightarrow> (\<exists>j<length scores. dominates (scores ! j) (scores ! i))"
  by (auto simp add: dominated_def list_ex_iff)

text \<open>The inner loop, started on in-range indices, raises nothing; it clears the flag
  of \<open>i\<close> exactly when one of the rows it visits dominates row \<open>i\<close>.\<close>

lemma inner_loop_eq:
  assumes "i < length scores" and "set js \<subseteq> {..<length scores}" and "i < length pf"
  shows "inner_loop scores i js pf =
           Inr (if \<exists>j\<in>set js. dominates (scores ! j) (scores ! i) then pf[i := False] else pf)"
  using assms
proof (induction js)
  case Nil
  then show ?case by simp
next
  case (Cons j js)
  then have j: "j < length scores" by simp
  from Cons have IH: "inner_loop scores i js pf =
           Inr (if \<exists>j\<in>set js. dominates (scores ! j) (scores ! i) then pf[i := False] else pf)"
    by simp
  show ?case
  proof (cases "dominates (scores ! j) (scores ! i)")
    case True
    with j Cons.prems show ?thesis by (simp add: getitem_def setitem_def)
  next
    case False
    with j Cons.prems IH show ?thesis by (simp add: getitem_def)
  qed
qed

lemma inner_loop_full:
  assumes "i < length scores" and "length pf = length scores"
  shows "inner_loop scores i (range_py (length scores)) pf =
           Inr (if dominated scores i then pf[i := False] else pf)"
proof -
  have "set (range_py (length scores)) \<subseteq> {..<length scores}"
    by (auto simp add: range_py_def)
  with assms inner_loop_eq[of i scores "range_py (length scores)" pf]
  show ?thesis by (auto simp add: dominated_iff range_py_def)
qed

text \<open>The outer loop clears the flags of the dominated candidates among those it visits
  and leaves every other flag as it was.\<close>

lemma outer_loop_eq:
  assumes "set is \<subseteq> {..<length scores}" and "length pf = length scores"
  shows "outer_loop scores (length scores) is pf =
           Inr (map (\<lambda>k. pf ! k \<and> \<not> (k \<in> set is \<and> dominated scores k)) [0..<length scores])"
  using assms
proof (induction "is" arbitrary: pf)
  case Nil
  then show ?case using map_nth[of pf] by simp
next
  case (Cons i "is")
  let ?pf' = "if dominated scores i then pf[i := False] else pf"
  from Cons.prems have i: "i < length scores" by simp
  have len: "length ?pf' = length scores" using Cons.prems by simp
  from Cons.prems have sub: "set is \<subseteq> {..<length scores}" by simp
  have step: "outer_loop scores (length scores) (i # is) pf
                = outer_loop scores (length scores) is ?pf'"
    using inner_loop_full[OF i Cons.prems(2)] by simp
  have pointwise: "(?pf' ! k \<and> \<not> (k \<in> set is \<and> dominated scores k))
      = (pf ! k \<and> \<not> (k \<in> set (i # is) \<and> dominated scores k))"
    if "k < length scores" for k
  proof (cases "dominated scores i")
    case True
    show ?thesis
    proof (cases "k = i")
      case True
      with \<open>dominated scores i\<close> i Cons.prems(2) show ?thesis by simp
    next
      case False
      with \<open>dominated scores i\<close> show ?thesis by simp
    qed
  next
    case False
    then show ?thesis by auto
  qed
  have "map (\<lambda>k. ?pf' ! k \<and> \<not> (k \<in> set is \<and> dominated scores k)) [0..<length scores]
      = map (\<lambda>k. pf ! k \<and> \<not> (k \<in> set (i # is) \<and> dominated scores k)) [0..<length scores]"
  proof (rule map_cong[OF refl])
    fix k assume "k \<in> set [0..<length scores]"
    then have "k < length scores" by simp
    then show "(?pf' ! k \<and> \<not> (k \<in> set is \<and> dominated scores k))
      = (pf ! k \<and> \<not> (k \<in> set (i # is) \<and> dominated scores k))"
      by (rule pointwise)
  qed
  with step Cons.IH[OF sub len] show ?case by simp
qed

lemma mask_index_map: "mask_index xs (map f xs) = Inr (filter f xs)"
proof -
  have "zip xs (map f xs) = map (\<lambda>x. (x, f x)) xs"
    by (induction xs) simp_all
  then show ?thesis
    by (simp add: mask_index_def filter_map comp_def)
qed

text \<open>The function raises nothing and returns, in increasing order, the indices of the
  candidates that no row dominates.\<close>

lemma identify_pareto_eq:
  "identify_pareto scores = Inr (filter (\<lambda>i. \<not> dominated scores i) [0..<length scores])"
proof -
  have "outer_loop scores (length scores) (range_py (length scores)) (ones (length scores))
      = Inr (map (\<lambda>k. \<not> dominated scores k) [0..<length scores])"
  proof -
    have sub: "set (range_py (length scores)) \<subseteq> {..<length scores}"
      by (auto simp add: range_py_def)
    have len: "length (ones (length scores)) = length scores"
      by (simp add: ones_def)
    have "map (\<lambda>k. ones (length scores) ! k
                 \<and> \<not> (k \<in> set (range_py (length scores)) \<and> dominated scores k))
            [0..<length scores]
        = map (\<lambda>k. \<not> dominated scores k) [0..<length scores]"
      by (simp add: ones_def range_py_def)
    with outer_loop_eq[OF sub len] show ?thesis by simp
  qed
  then show ?thesis
    by (simp add: identify_pareto_def shape0_def arange_def mask_index_map)
qed

lemma in_front_iff:
  "i \<in> set (filter (\<lambda>i. \<not> dominated scores i) [0..<length scores])
     \<longleftrightarrow> i < length scores \<and> \<not> (\<exists>j<length scores. dominates (scores ! j) (scores ! i))"
  by (auto simp add: dominated_iff)

section \<open>The exhaustive reference procedure\<close>

lemma nth_fold_record:
  "k < length flags \<Longrightarrow>
   fold (record_dominance scores) ps flags ! k
     = (flags ! k \<and> \<not> (\<exists>j. (k, j) \<in> set ps \<and> dominates (scores ! j) (scores ! k)))"
proof (induction ps arbitrary: flags)
  case Nil
  then show ?case by simp
next
  case (Cons ij ps)
  obtain i j where ij: "ij = (i, j)" by (cases ij)
  let ?flags' = "record_dominance scores ij flags"
  have len: "k < length ?flags'"
    using Cons.prems by (simp add: record_dominance_def ij)
  have step: "?flags' ! k = (flags ! k \<and> \<not> (i = k \<and> dominates (scores ! j) (scores ! k)))"
    using Cons.prems by (cases "i = k") (simp_all add: record_dominance_def ij)
  have "fold (record_dominance scores) (ij # ps) flags ! k
      = fold (record_dominance scores) ps ?flags' ! k" by simp
  also have "\<dots> = (?flags' ! k
                \<and> \<not> (\<exists>j. (k, j) \<in> set ps \<and> dominates (scores ! j) (scores ! k)))"
    by (rule Cons.IH[OF len])
  also have "\<dots> = (flags ! k
                \<and> \<not> (\<exists>j'. (k, j') \<in> set (ij # ps) \<and> dominates (scores ! j') (scores ! k)))"
    using step by (auto simp add: ij)
  finally show ?case .
qed

lemma set_all_pairs: "(i, j) \<in> set (all_pairs n) \<longleftrightarrow> i < n \<and> j < n \<and> i \<noteq> j"
  by (auto simp add: all_pairs_def)

lemma exhaustive_front_eq:
  "exhaustive_front scores = filter (\<lambda>i. \<not> dominated scores i) [0..<length scores]"
proof -
  let ?n = "length scores"
  let ?flags = "fold (record_dominance scores) (all_pairs ?n) (replicate ?n True)"
  have "?flags ! k = (\<not> dominated scores k)" if "k \<in> set [0..<?n]" for k
  proof -
    from that have k: "k < ?n" by simp
    then have "?flags ! k
        = (\<not> (\<exists>j. (k, j) \<in> set (all_pairs ?n) \<and> dominates (scores ! j) (scores ! k)))"
      by (simp add: nth_fold_record)
    also have "\<dots> = (\<not> (\<exists>j<?n. j \<noteq> k \<and> dominates (scores ! j) (scores ! k)))"
      using k by (auto simp add: set_all_pairs)
    also have "\<dots> = (\<not> (\<exists>j<?n. dominates (scores ! j) (scores ! k)))"
      using dominates_irrefl[of "scores ! k"] by blast
    finally show ?thesis by (simp add: dominated_iff)
  qed
  then have "filter (\<lambda>i. ?flags ! i) [0..<?n] = filter (\<lambda>i. \<not> dominated scores i) [0..<?n]"
    by (intro filter_cong refl)
  then show ?thesis by (simp add: exhaustive_front_def Let_def)
qed

section \<open>Worked examples\<close>

text \<open>
  Claim C2. On the thirty candidates of the notebook, \<open>identify_pareto\<close> returns the
  indices 0, 1, 3, 4, 6, 7, 8, 9, 10 (in this order, hence exactly this index set); on
  the single candidate \<open>[[1,1]]\<close> it returns index 0; on \<open>[[1,1],[2,2]]\<close> it returns
  index 1.
\<close>

theorem identify_pareto_examples:
  "identify_pareto notebook_scores = Inr [0, 1, 3, 4, 6, 7, 8, 9, 10]
   \<and> identify_pareto [[1, 1 :: int]] = Inr [0]
   \<and> identify_pareto [[1, 1], [2, 2 :: int]] = Inr [1]"
  by code_simp

section \<open>Membership in the front\<close>

text \<open>
  Claim C1. For every non-empty rectangular score table (\<open>m\<close> columns),
  \<open>identify_pareto\<close> returns an index list, and an index \<open>i\<close> is in it if and only if
  \<open>i\<close> is a candidate and no other candidate \<open>j\<close> dominates it, where \<open>j\<close> dominates
  \<open>i\<close> means that row \<open>j\<close> is \<open>\<ge>\<close> row \<open>i\<close> in every column and \<open>>\<close> in at least
  one column.
\<close>

theorem identify_pareto_iff_not_dominated:
  assumes "scores \<noteq> []" and "rectangular scores m"
  shows "\<exists>front. identify_pareto scores = Inr front \<and>
           (\<forall>i. i \<in> set front \<longleftrightarrow>
                  i < length scores \<and>
                  \<not> (\<exists>j<length scores. j \<noteq> i \<and>
                         (\<forall>k<m. scores ! j ! k \<ge> scores ! i ! k) \<and>
                         (\<exists>k<m. scores ! j ! k > scores ! i ! k)))"
proof -
  let ?front = "filter (\<lambda>i. \<not> dominated scores i) [0..<length scores]"
  have "i \<in> set ?front \<longleftrightarrow>
          i < length scores \<and>
          \<not> (\<exists>j<length scores. j \<noteq> i \<and>
                 (\<forall>k<m. scores ! j ! k \<ge> scores ! i ! k) \<and>
                 (\<exists>k<m. scores ! j ! k > scores ! i ! k))" for i
  proof (cases "i < length scores")
    case False
    then show ?thesis by simp
  next
    case True
    have dom: "dominates (scores ! j) (scores ! i) \<longleftrightarrow>
                 j \<noteq> i \<and> (\<forall>k<m. scores ! j ! k \<ge> scores ! i ! k) \<and>
                 (\<exists>k<m. scores ! j ! k > scores ! i ! k)" if "j < length scores" for j
    proof -
      have "length (scores ! j) = m" "length (scores ! i) = m"
        using assms(2) that True by (simp_all add: rectangular_nth)
      then show ?thesis
        using dominates_nth[of "scores ! j" "scores ! i"] dominates_irrefl[of "scores ! i"]
        by auto
    qed
    show ?thesis
      unfolding in_front_iff using True dom by blast
  qed
  then show ?thesis
    using identify_pareto_eq[of scores] by blast
qed

theorem identify_pareto_iff_not_dominated_witness:
  "[[1, 1], [2, 2 :: int]] \<noteq> [] \<and> rectangular [[1, 1], [2, 2 :: int]] 2 \<and>
   (\<exists>front. identify_pareto [[1, 1], [2, 2 :: int]] = Inr front \<and>
      (\<forall>i. i \<in> set front \<longleftrightarrow>
             i < length [[1, 1], [2, 2 :: int]] \<and>
             \<not> (\<exists>j<length [[1, 1], [2, 2 :: int]]. j \<noteq> i \<and>
                    (\<forall>k<2. [[1, 1], [2, 2 :: int]] ! j ! k \<ge> [[1, 1], [2, 2]] ! i ! k) \<and>
                    (\<exists>k<2. [[1, 1], [2, 2 :: int]] ! j ! k > [[1, 1], [2, 2]] ! i ! k))))"
proof -
  have h1: "[[1, 1], [2, 2 :: int]] \<noteq> []" by simp
  have h2: "rectangular [[1, 1], [2, 2 :: int]] 2" by (simp add: rectangular_def)
  from h1 h2 identify_pareto_iff_not_dominated[OF h1 h2] show ?thesis
    by (intro conjI)
qed

text \<open>
  Claim C3. For every non-empty score table, \<open>identify_pareto\<close> returns a non-empty
  index list: a row that is greatest in the lexicographic order of rows is dominated
  by no row.
\<close>

theorem identify_pareto_nonempty:
  assumes "scores \<noteq> []"
  shows "\<exists>front. identify_pareto scores = Inr front \<and> front \<noteq> []"
proof -
  let ?front = "filter (\<lambda>i. \<not> dominated scores i) [0..<length scores]"
  from assms have "Max (set scores) \<in> set scores" by (intro Max_in) simp_all
  then obtain i where i: "i < length scores" and top: "scores ! i = Max (set scores)"
    by (auto simp add: in_set_conv_nth)
  have "\<not> dominates (scores ! j) (scores ! i)" if "j < length scores" for j
  proof
    assume "dominates (scores ! j) (scores ! i)"
    then have "scores ! i < scores ! j" by (rule dominates_lex)
    moreover have "scores ! j \<le> Max (set scores)" using that by (intro Max_ge) simp_all
    ultimately show False using top by simp
  qed
  with i have "i \<in> set ?front" unfolding in_front_iff by blast
  then have "?front \<noteq> []" by (metis empty_iff empty_set)
  then show ?thesis using identify_pareto_eq[of scores] by blast
qed

theorem identify_pareto_nonempty_witness:
  "[[1, 2], [2, 1 :: int]] \<noteq> [] \<and>
   (\<exists>front. identify_pareto [[1, 2], [2, 1 :: int]] = Inr front \<and> front \<noteq> [])"
proof -
  have h: "[[1, 2], [2, 1 :: int]] \<noteq> []" by simp
  from h identify_pareto_nonempty[OF h] show ?thesis by (intro conjI)
qed

text \<open>
  Claim C4, amended. For every rectangular score table and every column \<open>k\<close>, a candidate
  whose score in column \<open>k\<close> is strictly greater than the score of every other candidate
  in column \<open>k\<close> is in the index list returned by \<open>identify_pareto\<close>. (A candidate that
  only ties for the maximum of a column can be dominated by another candidate with the
  same maximum, and is then left out: see the counterexample below.)
\<close>

theorem strict_column_maximum_on_front:
  assumes "rectangular scores m" and "k < m" and "i < length scores"
    and "\<forall>j<length scores. j \<noteq> i \<longrightarrow> scores ! j ! k < scores ! i ! k"
  shows "\<exists>front. identify_pareto scores = Inr front \<and> i \<in> set front"
proof -
  let ?front = "filter (\<lambda>i. \<not> dominated scores i) [0..<length scores]"
  have "\<not> dominates (scores ! j) (scores ! i)" if j: "j < length scores" for j
  proof (cases "j = i")
    case True
    then show ?thesis by (simp add: dominates_irrefl)
  next
    case False
    with assms(4) j have less: "scores ! j ! k < scores ! i ! k" by simp
    have "length (scores ! j) = m" "length (scores ! i) = m"
      using assms(1,3) j by (simp_all add: rectangular_nth)
    with less assms(2) show ?thesis
      using dominates_nth[of "scores ! j" "scores ! i"] by (auto simp add: not_le)
  qed
  with assms(3) have "i \<in> set ?front" unfolding in_front_iff by blast
  then show ?thesis using identify_pareto_eq[of scores] by blast
qed

theorem strict_column_maximum_on_front_witness:
  "rectangular [[1, 2], [2, 1 :: int]] 2 \<and> (0::nat) < 2
   \<and> (1::nat) < length [[1, 2], [2, 1 :: int]]
   \<and> [[1, 2], [2, 1 :: int]] ! 0 ! 0 < [[1, 2], [2, 1]] ! 1 ! 0
   \<and> (\<exists>front. identify_pareto [[1, 2], [2, 1 :: int]] = Inr front \<and> 1 \<in> set front)"
proof -
  have h1: "rectangular [[1, 2], [2, 1 :: int]] 2" by (simp add: rectangular_def)
  have h2: "(0::nat) < 2" by simp
  have h3: "(1::nat) < length [[1, 2], [2, 1 :: int]]" by simp
  have h0: "[[1, 2], [2, 1 :: int]] ! 0 ! 0 < [[1, 2], [2, 1]] ! 1 ! 0" by simp
  have h4: "\<forall>j<length [[1, 2], [2, 1 :: int]]. j \<noteq> 1 \<longrightarrow>
       [[1, 2], [2, 1 :: int]] ! j ! 0 < [[1, 2], [2, 1]] ! 1 ! 0"
    by (simp add: less_Suc_eq)
  from h1 h2 h3 h0 strict_column_maximum_on_front[OF h1 h2 h3 h4] show ?thesis
    by (intro conjI)
qed

text \<open>
  The claim as first stated fails: in \<open>[[1,1],[1,2]]\<close> candidate 0 reaches the maximum
  of column 0, yet candidate 1 dominates it, and the function returns index 1 only.
\<close>

theorem column_maximum_not_on_front:
  "[[1, 1], [1, 2 :: int]] ! 0 ! 0 = Max (set (column [[1, 1], [1, 2 :: int]] 0))
   \<and> identify_pareto [[1, 1], [1, 2 :: int]] = Inr [1]
   \<and> (0::nat) \<notin> set [1]"
proof (intro conjI)
  show "[[1, 1], [1, 2 :: int]] ! 0 ! 0 = Max (set (column [[1, 1], [1, 2 :: int]] 0))"
    by (simp add: column_def)
  show "identify_pareto [[1, 1], [1, 2 :: int]] = Inr [1]" by code_simp
  show "(0::nat) \<notin> set [1]" by simp
qed

text \<open>
  Claim C5. For every score table, two candidates with identical score vectors are both
  in the returned index list or both out of it; and when all candidates share one score
  vector, every index is returned.
\<close>

theorem identify_pareto_duplicates:
  "\<exists>front. identify_pareto scores = Inr front \<and>
     (\<forall>i<length scores. \<forall>j<length scores.
         scores ! i = scores ! j \<longrightarrow> (i \<in> set front \<longleftrightarrow> j \<in> set front)) \<and>
     ((\<forall>i<length scores. \<forall>j<length scores. scores ! i = scores ! j) \<longrightarrow>
         front = [0..<length scores])"
proof (intro exI conjI)
  let ?front = "filter (\<lambda>i. \<not> dominated scores i) [0..<length scores]"
  show "identify_pareto scores = Inr ?front" by (rule identify_pareto_eq)
  show "\<forall>i<length scores. \<forall>j<length scores.
         scores ! i = scores ! j \<longrightarrow> (i \<in> set ?front \<longleftrightarrow> j \<in> set ?front)"
  proof (intro allI impI)
    fix i j assume "i < length scores" "j < length scores" "scores ! i = scores ! j"
    then show "i \<in> set ?front \<longleftrightarrow> j \<in> set ?front"
      by (simp add: dominated_iff)
  qed
  show "(\<forall>i<length scores. \<forall>j<length scores. scores ! i = scores ! j) \<longrightarrow>
         ?front = [0..<length scores]"
  proof
    assume same: "\<forall>i<length scores. \<forall>j<length scores. scores ! i = scores ! j"
    have "\<not> dominated scores i" if "i \<in> set [0..<length scores]" for i
    proof -
      from that have i: "i < length scores" by simp
      have "\<not> dominates (scores ! j) (scores ! i)" if "j < length scores" for j
      proof -
        from same that i have "scores ! j = scores ! i" by blast
        then show ?thesis by (simp add: dominates_irrefl)
      qed
      then show ?thesis by (simp add: dominated_iff)
    qed
    then have "\<forall>i\<in>set [0..<length scores]. \<not> dominated scores i" by blast
    then show "?front = [0..<length scores]" by (rule filter_True)
  qed
qed

theorem identify_pareto_duplicates_witness:
  "replicate 5 [10, 10 :: int] ! 0 = replicate 5 [10, 10] ! 4
   \<and> identify_pareto (replicate 5 [10, 10 :: int]) = Inr [0, 1, 2, 3, 4]"
proof -
  let ?s = "replicate 5 [10, 10 :: int]"
  have h: "\<forall>i<length ?s. \<forall>j<length ?s. ?s ! i = ?s ! j" by simp
  from identify_pareto_duplicates[of ?s] obtain front where
    res: "identify_pareto ?s = Inr front" and
    all: "(\<forall>i<length ?s. \<forall>j<length ?s. ?s ! i = ?s ! j) \<longrightarrow> front = [0..<length ?s]"
    by blast
  from all h have "front = [0..<length ?s]" by blast
  moreover have "[0..<length ?s] = [0, 1, 2, 3, 4]" by code_simp
  ultimately have "identify_pareto ?s = Inr [0, 1, 2, 3, 4]" using res by simp
  moreover have "?s ! 0 = ?s ! 4" by simp
  ultimately show ?thesis by (intro conjI)
qed

text \<open>
  Claim C6. For every score table and every permutation \<open>p\<close> of its row indices, the
  table whose row \<open>i\<close> is row \<open>p i\<close> of the original has candidate \<open>i\<close> on its front
  exactly when the original table has candidate \<open>p i\<close> on its front: the selected rows
  are the same up to the relabelling of indices by \<open>p\<close>.
\<close>

theorem identify_pareto_permute_rows:
  assumes "bij_betw p {..<length scores} {..<length scores}"
  shows "\<exists>front front'.
           identify_pareto scores = Inr front \<and>
           identify_pareto (permute_rows p scores) = Inr front' \<and>
           (\<forall>i<length scores. i \<in> set front' \<longleftrightarrow> p i \<in> set front)"
proof -
  let ?n = "length scores"
  let ?scores' = "permute_rows p scores"
  let ?front = "filter (\<lambda>i. \<not> dominated scores i) [0..<?n]"
  let ?front' = "filter (\<lambda>i. \<not> dominated ?scores' i) [0..<length ?scores']"
  have len: "length ?scores' = ?n" by (simp add: permute_rows_def)
  have row: "?scores' ! i = scores ! p i" if "i < ?n" for i
    using that by (simp add: permute_rows_def)
  have inr: "p i < ?n" if "i < ?n" for i
    using assms that by (auto simp add: bij_betw_def)
  have surj: "\<exists>j<?n. p j = j'" if "j' < ?n" for j'
  proof -
    from assms that have "j' \<in> p ` {..<?n}" by (simp add: bij_betw_def)
    then show ?thesis by auto
  qed
  have "i \<in> set ?front' \<longleftrightarrow> p i \<in> set ?front" if i: "i < ?n" for i
  proof -
    have "(\<exists>j<?n. dominates (?scores' ! j) (?scores' ! i))
        \<longleftrightarrow> (\<exists>j<?n. dominates (scores ! p j) (scores ! p i))"
      using i row by auto
    also have "\<dots> \<longleftrightarrow> (\<exists>j'<?n. dominates (scores ! j') (scores ! p i))"
    proof
      assume "\<exists>j<?n. dominates (scores ! p j) (scores ! p i)"
      then obtain j where "j < ?n" "dominates (scores ! p j) (scores ! p i)" by blast
      with inr[of j] show "\<exists>j'<?n. dominates (scores ! j') (scores ! p i)" by blast
    next
      assume "\<exists>j'<?n. dominates (scores ! j') (scores ! p i)"
      then obtain j' where j': "j' < ?n" "dominates (scores ! j') (scores ! p i)" by blast
      from surj[OF j'(1)] obtain j where "j < ?n" "p j = j'" by blast
      with j'(2) show "\<exists>j<?n. dominates (scores ! p j) (scores ! p i)" by blast
    qed
    finally have "dominated ?scores' i \<longleftrightarrow> dominated scores (p i)"
      by (simp add: dominated_iff len)
    with i inr[OF i] show ?thesis by (simp add: len)
  qed
  then show ?thesis
    using identify_pareto_eq[of scores] identify_pareto_eq[of ?scores'] by blast
qed

theorem identify_pareto_permute_rows_witness:
  "bij_betw (\<lambda>i. 1 - i) {..<length [[1, 1], [2, 2 :: int]]} {..<length [[1, 1], [2, 2 :: int]]}
   \<and> permute_rows (\<lambda>i. 1 - i) [[1, 1], [2, 2 :: int]] = [[2, 2], [1, 1]]
   \<and> (\<exists>front front'.
         identify_pareto [[1, 1], [2, 2 :: int]] = Inr front \<and>
         identify_pareto (permute_rows (\<lambda>i. 1 - i) [[1, 1], [2, 2 :: int]]) = Inr front' \<and>
         (\<forall>i<length [[1, 1], [2, 2 :: int]]. i \<in> set front' \<longleftrightarrow> 1 - i \<in> set front))"
proof -
  have "{..<length [[1, 1], [2, 2 :: int]]} = {0, 1}" by auto
  then have h: "bij_betw (\<lambda>i. 1 - i) {..<length [[1, 1], [2, 2 :: int]]}
                  {..<length [[1, 1], [2, 2 :: int]]}"
    by (simp add: bij_betw_def insert_commute)
  have p: "permute_rows (\<lambda>i. 1 - i) [[1, 1], [2, 2 :: int]] = [[2, 2], [1, 1]]"
    by (simp add: permute_rows_def upt_rec)
  from h p identify_pareto_permute_rows[OF h] show ?thesis by (intro conjI)
qed

section \<open>The empty table\<close>

text \<open>
  Claim C7, amended. When called with an empty score table (zero candidates),
  \<open>identify_pareto\<close> raises no error: both loops run zero times and the function
  returns the empty index list.
\<close>

theorem identify_pareto_empty: "identify_pareto ([] :: ('a::linorder) list list) = Inr []"
  by (simp add: identify_pareto_eq)

text \<open>The claim as first stated, that the call on the empty table fails with an error,
  is false: the result of the call is not an error.\<close>

theorem identify_pareto_empty_no_error: "\<not> isl (identify_pareto ([] :: int list list))"
  by code_simp

section \<open>Dominance is a strict partial order\<close>

text \<open>
  Claim C8. The dominance relation of the code is irreflexive, asymmetric and, on score
  vectors of one length, transitive; on such vectors \<open>a\<close> dominates \<open>b\<close> if and only if
  \<open>a\<close> is \<open>\<ge>\<close> \<open>b\<close> in every component and \<open>>\<close> in at least one.
\<close>

theorem dominates_strict_partial_order:
  "\<not> dominates a a
   \<and> (dominates a b \<longrightarrow> \<not> dominates b a)
   \<and> (length a = length b \<and> length b = length c \<and> dominates a b \<and> dominates b c
        \<longrightarrow> dominates a c)
   \<and> (length a = length b \<longrightarrow>
        (dominates a b \<longleftrightarrow>
           (\<forall>k<length a. a ! k \<ge> b ! k) \<and> (\<exists>k<length a. a ! k > b ! k)))"
  using dominates_irrefl[of a] dominates_asym[of a b] dominates_trans[of a b c]
    dominates_nth[of a b]
  by blast

theorem dominates_strict_partial_order_witness:
  "length [2, 2 :: int] = length [1, 2 :: int] \<and> length [1, 2 :: int] = length [1, 1 :: int]
   \<and> dominates [2, 2] [1, 2 :: int] \<and> dominates [1, 2] [1, 1 :: int]
   \<and> dominates [2, 2] [1, 1 :: int]
   \<and> \<not> dominates [1, 2] [2, 2 :: int]
   \<and> \<not> dominates [2, 2] [2, 2 :: int]"
proof -
  have l: "length [2, 2 :: int] = length [1, 2 :: int]"
    "length [1, 2 :: int] = length [1, 1 :: int]" by simp_all
  have d1: "dominates [2, 2] [1, 2 :: int]" by code_simp
  have d2: "dominates [1, 2] [1, 1 :: int]" by code_simp
  from dominates_strict_partial_order[of "[2, 2 :: int]" "[1, 2]" "[1, 1]"] l d1 d2
  have "dominates [2, 2] [1, 1 :: int]" "\<not> dominates [1, 2] [2, 2 :: int]"
    "\<not> dominates [2, 2] [2, 2 :: int]"
    by blast+
  with l d1 d2 show ?thesis by (intro conjI)
qed

section \<open>The loop against the exhaustive procedure\<close>

text \<open>
  Claim C9. The implemented loop, which also compares candidate \<open>i\<close> with itself and
  leaves the inner loop at the first dominator, returns the same indices as the
  exhaustive reference procedure that examines all ordered pairs with \<open>i \<noteq> j\<close> and
  records every dominance; this holds for every input.
\<close>

theorem identify_pareto_refines_exhaustive:
  "identify_pareto scores = Inr (exhaustive_front scores)"
  by (simp only: identify_pareto_eq exhaustive_front_eq)

theorem identify_pareto_refines_exhaustive_witness:
  "identify_pareto [[1, 2], [2, 1], [1, 1 :: int]]
     = Inr (exhaustive_front [[1, 2], [2, 1], [1, 1 :: int]])
   \<and> exhaustive_front [[1, 2], [2, 1], [1, 1 :: int]] = [0, 1]"
proof
  show "identify_pareto [[1, 2], [2, 1], [1, 1 :: int]]
          = Inr (exhaustive_front [[1, 2], [2, 1], [1, 1 :: int]])"
    by (rule identify_pareto_refines_exhaustive)
  show "exhaustive_front [[1, 2], [2, 1], [1, 1 :: int]] = [0, 1]" by code_simp
qed

section \<open>Shape of the result\<close>

text \<open>
  Claim C10. For every score table with \<open>N\<close> rows, the index list returned by
  \<open>identify_pareto\<close> is strictly increasing, has no duplicates, and every index in it
  is below \<open>N\<close>.
\<close>

theorem identify_pareto_strictly_increasing:
  "\<exists>front. identify_pareto scores = Inr front \<and>
     sorted_wrt (<) front \<and> distinct front \<and> (\<forall>i\<in>set front. i < length scores)"
proof -
  let ?front = "filter (\<lambda>i. \<not> dominated scores i) [0..<length scores]"
  have "sorted_wrt (<) ?front" by (rule sorted_wrt_filter) simp
  moreover have "distinct ?front" by simp
  moreover have "\<forall>i\<in>set ?front. i < length scores" by simp
  ultimately show ?thesis using identify_pareto_eq[of scores] by blast
qed

theorem identify_pareto_strictly_increasing_witness:
  "\<exists>front. identify_pareto notebook_scores = Inr front \<and>
     sorted_wrt (<) front \<and> distinct front \<and> (\<forall>i\<in>set front. i < length notebook_scores)"
  by (rule identify_pareto_strictly_increasing)

end
